theory Spec2Isabelle
  imports Complex_Main "HOL-Library.Sublist"
begin

section \<open>Errors\<close>

text \<open>
  The exceptions that the two modules can raise, named as Python names them.
  \<open>TransportError\<close> stands for the connection and timeout exceptions of the
  \<open>requests\<close> library, \<open>HTTPError\<close> for what \<open>raise_for_status\<close> raises (with
  the status code), \<open>JSONDecodeError\<close> for what \<open>r.json()\<close> raises,
  \<open>OSError\<close> for a failing file-system call, \<open>OverflowError\<close> and
  \<open>ZeroDivisionError\<close> for the arithmetic ones, \<open>InvalidVersion\<close> for what
  \<open>packaging.version.parse\<close> raises on a string that is no version and
  \<open>ValueError\<close> for what \<open>int\<close> raises.
\<close>

datatype error =
    TransportError
  | HTTPError nat
  | JSONDecodeError
  | OSError
  | OverflowError
  | ZeroDivisionError
  | InvalidVersion
  | ValueError

section \<open>Version helpers\<close>

subsection \<open>Strings of code points\<close>

text \<open>
  A Python \<open>str\<close> is a sequence of Unicode code points, and the version helpers
  depend on which code points are digits. The strings of the version helpers
  are therefore lists of code points; \<open>ustr\<close> gives the string of an ASCII
  literal.
\<close>

type_synonym ustring = "nat list"

definition ustr :: "string \<Rightarrow> ustring" where
  "ustr s = map of_char s"

text \<open>The code point of the full stop.\<close>

definition dot :: nat where
  "dot = 46"

subsection \<open>The pattern \<open>(\d+\.\d+\.\d+)\<close>\<close>

text \<open>
  The pattern is compiled from a \<open>str\<close> without the flag \<open>re.ASCII\<close>, so the class
  \<open>\d\<close> holds every Unicode decimal digit. These come in runs of ten, from the
  digit zero to the digit nine of a script; the list holds the code point of
  the digit zero of each run (Unicode 14.0, the one of CPython 3.11).
\<close>

definition decimal_zeros :: "nat list" where
  "decimal_zeros =
    [48, 1632, 1776, 1984, 2406, 2534, 2662, 2790, 2918, 3046, 3174, 3302, 3430,
     3558, 3664, 3792, 3872, 4160, 4240, 6112, 6160, 6470, 6608, 6784, 6800, 6992,
     7088, 7232, 7248, 42528, 43216, 43264, 43472, 43504, 43600, 44016, 65296, 66720,
     68912, 69734, 69872, 69942, 70096, 70384, 70736, 70864, 71248, 71360, 71472,
     71904, 72016, 72784, 73040, 73120, 92768, 92864, 93008, 120782, 120792, 120802,
     120812, 120822, 123200, 123632, 125264, 130032]"

definition is_digit :: "nat \<Rightarrow> bool" where
  "is_digit c = list_ex (\<lambda>z. z \<le> c \<and> c < z + 10) decimal_zeros"

text \<open>
  A match of the pattern at the start of a string. Each \<open>\d+\<close> is greedy and the
  character after it must be a dot, so a shorter run of digits never lets the
  match continue: the only candidate for each group is the whole run of digits.
  The result is the three groups of digits.
\<close>

definition match_here :: "ustring \<Rightarrow> (ustring \<times> ustring \<times> ustring) option" where
  "match_here s =
     (let a = takeWhile is_digit s; r1 = dropWhile is_digit s in
      if a = [] then None
      else
        (case r1 of
           [] \<Rightarrow> None
         | x # r2 \<Rightarrow>
             if x \<noteq> dot then None
             else
               (let b = takeWhile is_digit r2; r3 = dropWhile is_digit r2 in
                if b = [] then None
                else
                  (case r3 of
                     [] \<Rightarrow> None
                   | y # r4 \<Rightarrow>
                       if y \<noteq> dot then None
                       else
                         (let c = takeWhile is_digit r4 in
                          if c = [] then None else Some (a, b, c))))))"

text \<open>\<open>_semver.search\<close>: the match at the leftmost position that has one.\<close>

fun search :: "ustring \<Rightarrow> (ustring \<times> ustring \<times> ustring) option" where
  "search [] = None"
| "search (c # cs) =
     (case match_here (c # cs) of Some g \<Rightarrow> Some g | None \<Rightarrow> search cs)"

text \<open>\<open>m.group(1)\<close>: the matched text.\<close>

definition group1 :: "ustring \<times> ustring \<times> ustring \<Rightarrow> ustring" where
  "group1 g = (case g of (a, b, c) \<Rightarrow> a @ dot # b @ dot # c)"

text \<open>\<open>v or ""\<close> for an optional string.\<close>

definition or_empty :: "'a list option \<Rightarrow> 'a list" where
  "or_empty v = (case v of None \<Rightarrow> [] | Some s \<Rightarrow> s)"

text \<open>\<open>_extract\<close> (the bare name is reserved in Isabelle).\<close>

definition semver_extract :: "ustring option \<Rightarrow> ustring option" where
  "semver_extract v = map_option group1 (search (or_empty v))"

text \<open>Truth value of an optional string, and Python's \<open>or\<close> on two of them.\<close>

definition truthy :: "'a list option \<Rightarrow> bool" where
  "truthy v = (case v of None \<Rightarrow> False | Some s \<Rightarrow> s \<noteq> [])"

definition py_or :: "'a list option \<Rightarrow> 'a list option \<Rightarrow> 'a list option" where
  "py_or a b = (if truthy a then a else b)"

text \<open>\<open>best_version_string\<close>.\<close>

definition best_version_string :: "ustring \<Rightarrow> ustring option \<Rightarrow> ustring" where
  "best_version_string tag title =
     or_empty (py_or (py_or (semver_extract (Some tag)) (semver_extract title)) (Some tag))"

subsection \<open>\<open>packaging.version\<close> on the text of a match\<close>

text \<open>
  \<open>version.parse\<close> is called only on the text of a match: digits of \<open>\d\<close> and
  dots. The pattern of the library writes its digits as \<open>[0-9]\<close>, so of these
  texts it accepts those whose digits are all ASCII digits, as a release
  segment, and raises \<open>InvalidVersion\<close> on the others. (On other strings the
  model raises more often than the library does.) The numbers of the release
  are then read with \<open>int\<close>, from left to right. The parsed version is the list
  of the numbers.
\<close>

definition is_ascii_digit :: "nat \<Rightarrow> bool" where
  "is_ascii_digit c = (48 \<le> c \<and> c < 58)"

fun split_dots :: "ustring \<Rightarrow> ustring list" where
  "split_dots [] = [[]]"
| "split_dots (c # cs) =
     (if c = dot then [] # split_dots cs
      else case split_dots cs of
             [] \<Rightarrow> [[c]]
           | g # gs \<Rightarrow> (c # g) # gs)"

definition digit_val :: "nat \<Rightarrow> nat" where
  "digit_val c = c - 48"

text \<open>
  \<open>int(s)\<close> on a nonempty string of ASCII digits. CPython refuses to convert a
  string of more than 4300 digits (\<open>sys.int_max_str_digits\<close>) and raises
  \<open>ValueError\<close>.
\<close>

definition max_str_digits :: nat where
  "max_str_digits = 4300"

definition int_of_str :: "ustring \<Rightarrow> error + nat" where
  "int_of_str s =
     (if max_str_digits < length s then Inl ValueError
      else Inr (foldl (\<lambda>n c. 10 * n + digit_val c) 0 s))"

fun ints_of_strs :: "ustring list \<Rightarrow> error + nat list" where
  "ints_of_strs [] = Inr []"
| "ints_of_strs (s # ss) =
     (case int_of_str s of
        Inl e \<Rightarrow> Inl e
      | Inr n \<Rightarrow> (case ints_of_strs ss of Inl e \<Rightarrow> Inl e | Inr ns \<Rightarrow> Inr (n # ns)))"

definition parse :: "ustring \<Rightarrow> error + nat list" where
  "parse s =
     (let segs = split_dots s in
      if list_all (\<lambda>g. g \<noteq> [] \<and> list_all is_ascii_digit g) segs
      then ints_of_strs segs else Inl InvalidVersion)"

text \<open>
  The comparison key of a version: the release with its trailing zeros removed.
  The other components of the key are the same constants for all release-only
  versions.
\<close>

definition cmpkey :: "nat list \<Rightarrow> nat list" where
  "cmpkey release = rev (dropWhile (\<lambda>x. x = 0) (rev release))"

text \<open>Python's \<open>>\<close> on tuples of integers.\<close>

fun tuple_gt :: "nat list \<Rightarrow> nat list \<Rightarrow> bool" where
  "tuple_gt [] ys = False"
| "tuple_gt (x # xs) [] = True"
| "tuple_gt (x # xs) (y # ys) = (y < x \<or> (x = y \<and> tuple_gt xs ys))"

definition version_gt :: "nat list \<Rightarrow> nat list \<Rightarrow> bool" where
  "version_gt v w = tuple_gt (cmpkey v) (cmpkey w)"

subsection \<open>\<open>compare_versions\<close>\<close>

text \<open>
  The operands of \<open>>\<close> are evaluated from left to right: the remote version is
  parsed first.
\<close>

definition compare_versions :: "ustring \<Rightarrow> ustring \<Rightarrow> ustring option \<Rightarrow> error + bool" where
  "compare_versions remote_tag local title =
     (let remote = py_or (semver_extract (Some remote_tag)) (semver_extract title);
          loc = semver_extract (Some local)
      in
      if truthy remote \<and> truthy loc then
        (case parse (or_empty remote) of
           Inl e \<Rightarrow> Inl e
         | Inr vr \<Rightarrow>
             (case parse (or_empty loc) of
                Inl e \<Rightarrow> Inl e
              | Inr vl \<Rightarrow> Inr (version_gt vr vl)))
      else if truthy remote \<and> \<not> truthy loc then Inr True
      else if \<not> truthy remote \<and> truthy loc then Inr False
      else Inr True)"

section \<open>The release fetcher\<close>

text \<open>
  What \<open>json.loads\<close> yields. Numbers are integers here: the fields that the
  program reads hold strings, lists and byte counts.
\<close>

datatype json =
    JNull
  | JBool bool
  | JNum int
  | JStr string
  | JArr "json list"
  | JObj "(string \<times> json) list"


text \<open>
  One item of a streamed body, as the loop of \<open>_grab\<close> meets it: a chunk that
  arrives (and is written when it is not empty); a non-empty chunk whose
  \<open>f.write\<close> raises after the given bytes have reached the file; or the
  iteration itself raising because the connection broke.
\<close>

datatype item = Chunk string | WriteFails string | Dropped

text \<open>
  A \<open>requests.Response\<close>: the status code, what \<open>r.json()\<close> yields (absent when
  the body is not JSON) and what \<open>r.iter_content\<close> yields.
\<close>

record response =
  status_code :: nat
  json_body :: "json option"
  stream :: "item list"

text \<open>\<open>r.raise_for_status()\<close> raises on the codes 400 to 599 and on no other.\<close>

definition raise_for_status :: "response \<Rightarrow> error + unit" where
  "raise_for_status r =
     (if 400 \<le> status_code r \<and> status_code r < 600
      then Inl (HTTPError (status_code r)) else Inr ())"




text \<open>The kinds of failure that the specification names, and the kind of each exception.\<close>

datatype kind = NetworkError | ParseError | SchemaError | FilesystemError | ArithmeticError


section \<open>Double-precision arithmetic of the progress computation\<close>

text \<open>
  A finite non-negative double is a number \<open>m * 2 ^ k / 2 ^ 1074\<close> with
  \<open>m < 2 ^ 53\<close> that is below \<open>2 ^ 1024\<close>. Such a double is represented by the
  natural number \<open>m * 2 ^ k\<close>, its value in units of \<open>2 ^ -1074\<close>, the smallest
  positive double.
\<close>

definition unit_bits :: nat where
  "unit_bits = 1074"

definition float_limit :: nat where
  "float_limit = 2 ^ (1024 + unit_bits)"

text \<open>The number of binary digits of a natural number.\<close>

fun bitlen :: "nat \<Rightarrow> nat" where
  "bitlen n = (if n = 0 then 0 else Suc (bitlen (n div 2)))"

declare bitlen.simps [simp del]

text \<open>The quotient \<open>N / D\<close> rounded to the nearest integer, a tie to the even one.\<close>

definition round_half_even :: "nat \<Rightarrow> nat \<Rightarrow> nat" where
  "round_half_even N D =
     (let m = N div D; r = N mod D in
      if 2 * r < D then m
      else if D < 2 * r then m + 1
      else if even m then m else m + 1)"

text \<open>
  The quotient \<open>N / d\<close> of units rounded to the nearest number with 53 significant
  bits, a tie to the even one: with \<open>k\<close> the number of bits of the integer part
  beyond 53, the result is a multiple of \<open>2 ^ k\<close>.
\<close>

definition fl_round :: "nat \<Rightarrow> nat \<Rightarrow> nat" where
  "fl_round N d =
     (let k = bitlen (N div d) - 53 in round_half_even N (d * 2 ^ k) * 2 ^ k)"

datatype pyfloat = Finite nat | Inf

text \<open>\<open>a / b\<close> on two integers: the correctly rounded quotient.\<close>

definition int_truediv :: "nat \<Rightarrow> nat \<Rightarrow> error + pyfloat" where
  "int_truediv a b =
     (if b = 0 then Inl ZeroDivisionError
      else let q = fl_round (a * 2 ^ unit_bits) b in
           if q < float_limit then Inr (Finite q) else Inl OverflowError)"

text \<open>The conversion of a small integer, which is exact.\<close>

definition float_of_int :: "nat \<Rightarrow> pyfloat" where
  "float_of_int n = Finite (n * 2 ^ unit_bits)"

text \<open>\<open>x * y\<close> on two doubles: the rounded product, infinite on overflow.\<close>

definition float_mul :: "pyfloat \<Rightarrow> pyfloat \<Rightarrow> pyfloat" where
  "float_mul x y =
     (case x of
        Inf \<Rightarrow> Inf
      | Finite a \<Rightarrow>
          (case y of
             Inf \<Rightarrow> Inf
           | Finite b \<Rightarrow>
               let p = fl_round (a * b) (2 ^ unit_bits) in
               if p < float_limit then Finite p else Inf))"

text \<open>\<open>int(x)\<close> on a double: truncation, an error on infinity.\<close>

definition int_of_float :: "pyfloat \<Rightarrow> error + nat" where
  "int_of_float x =
     (case x of Inf \<Rightarrow> Inl OverflowError | Finite a \<Rightarrow> Inr (a div 2 ^ unit_bits))"

text \<open>\<open>int(done_bytes / total * 100)\<close>.\<close>

definition percent :: "nat \<Rightarrow> nat \<Rightarrow> error + nat" where
  "percent done_bytes tot =
     (case int_truediv done_bytes tot of
        Inl e \<Rightarrow> Inl e
      | Inr q \<Rightarrow> int_of_float (float_mul q (float_of_int 100)))"

text \<open>The floor of the exact value of \<open>done_bytes / total * 100\<close>.\<close>

definition exact_percent :: "nat \<Rightarrow> nat \<Rightarrow> nat" where
  "exact_percent done_bytes tot = (done_bytes * 100) div tot"

section \<open>The download manager\<close>

subsection \<open>Assets, files and the world outside\<close>

text \<open>An entry of the release's asset list. The size is a count of bytes.\<close>

record asset =
  asset_name :: string
  asset_size :: nat
  browser_download_url :: string

text \<open>The files on disk: the content under each path that exists.\<close>

type_synonym files = "string \<rightharpoonup> string"

text \<open>
  What one download meets: the response of \<open>session.get\<close> (none when the
  transport fails); whether \<open>open(dest, "wb")\<close> succeeds; and what closing the
  file does. The file is buffered, so a \<open>f.write\<close> that was accepted may not have
  reached the disk yet: closing flushes the buffer, and when that fails it
  raises, and a number of the last bytes accepted are lost.
\<close>

record download =
  get_result :: "response option"
  open_ok :: bool
  close_lost :: "nat option"

text \<open>
  The world of one batch: whether \<open>mkdir\<close> succeeds, what the download of the
  task submitted at each position meets, and the order in which \<open>as_completed\<close>
  hands the futures (positions of submission) to the caller.
\<close>

record world =
  mkdir_ok :: bool
  net :: "nat \<Rightarrow> download"
  completion :: "nat list"

subsection \<open>\<open>tick\<close>\<close>

text \<open>
  The closure \<open>tick\<close>, with the variables it captures as arguments. The callback
  records what it is given: the result lists the values passed to it.
\<close>

definition tick :: "bool \<Rightarrow> nat \<Rightarrow> nat \<Rightarrow> error + nat list" where
  "tick on_progress tot done_bytes =
     (if on_progress \<and> tot \<noteq> 0 then
        (case percent done_bytes tot of Inl e \<Rightarrow> Inl e | Inr p \<Rightarrow> Inr [p])
      else Inr [])"

subsection \<open>\<open>_grab\<close>\<close>

text \<open>
  The loop over the chunks. Its state is the content written to the file so far
  and the counter \<open>downloaded\<close>; it yields the content of the file, the values
  reported and the exception that ended it, if one did.
\<close>

fun drain :: "bool \<Rightarrow> nat \<Rightarrow> nat \<Rightarrow> item list \<Rightarrow> string \<Rightarrow> nat
    \<Rightarrow> string \<times> nat list \<times> error option" where
  "drain cb tot offset [] written downloaded = (written, [], None)"
| "drain cb tot offset (Dropped # rest) written downloaded =
     (written, [], Some TransportError)"
| "drain cb tot offset (WriteFails part # rest) written downloaded =
     (written @ part, [], Some OSError)"
| "drain cb tot offset (Chunk c # rest) written downloaded =
     (if c = [] then drain cb tot offset rest written downloaded
      else
        (case tick cb tot (offset + (downloaded + length c)) of
           Inl e \<Rightarrow> (written @ c, [], Some e)
         | Inr vs \<Rightarrow>
             (case drain cb tot offset rest (written @ c) (downloaded + length c) of
                (w, rs, e) \<Rightarrow> (w, vs @ rs, e))))"

text \<open>A task of the pool: the arguments of one call of \<open>_grab\<close>.\<close>

record task =
  t_asset :: asset
  t_dest :: string
  t_offset :: nat

text \<open>
  Leaving the \<open>with\<close> block closes the file, also when the block is left by an
  exception. There is something to flush only when something was written. A
  failing flush raises \<open>OSError\<close>, which replaces the exception that was
  leaving the block, if there was one. The result is what the file holds and
  the exception that the task ends with.
\<close>

definition close_file :: "download \<Rightarrow> string \<Rightarrow> error option \<Rightarrow> string \<times> error option" where
  "close_file d written e =
     (case close_lost d of
        None \<Rightarrow> (written, e)
      | Some n \<Rightarrow>
          if written = [] then (written, e)
          else (take (length written - n) written, Some OSError))"

text \<open>
  \<open>_grab\<close>: the request first, then the file opened for writing (which empties
  it), then the check of the status, then the loop, then the closing of the
  file.
\<close>

definition grab :: "download \<Rightarrow> task \<Rightarrow> bool \<Rightarrow> nat \<Rightarrow> files
    \<Rightarrow> files \<times> nat list \<times> error option" where
  "grab d t cb tot fs =
     (case get_result d of
        None \<Rightarrow> (fs, [], Some TransportError)
      | Some r \<Rightarrow>
          if \<not> open_ok d then (fs, [], Some OSError)
          else
            (case raise_for_status r of
               Inl e \<Rightarrow> (fs(t_dest t \<mapsto> []), [], Some e)
             | Inr u \<Rightarrow>
                 (case drain cb tot (t_offset t) (stream r) [] 0 of
                    (w, rs, e) \<Rightarrow>
                      (case close_file d w e of
                         (w', e') \<Rightarrow> (fs(t_dest t \<mapsto> w'), rs, e')))))"

subsection \<open>\<open>download_all_assets\<close>\<close>

text \<open>\<open>str.lower\<close> on the characters with codes up to 255.\<close>

definition lower_char :: "char \<Rightarrow> char" where
  "lower_char c =
     (let n = (of_char c :: nat) in
      if (65 \<le> n \<and> n \<le> 90) \<or> (192 \<le> n \<and> n \<le> 222 \<and> n \<noteq> 215)
      then char_of (n + 32) else c)"

definition lower :: "string \<Rightarrow> string" where
  "lower s = map lower_char s"

definition todo_of :: "asset list \<Rightarrow> asset list" where
  "todo_of assets = filter (\<lambda>a. \<not> prefix ''Source code'' (asset_name a)) assets"

definition total_of :: "asset list \<Rightarrow> nat" where
  "total_of todo = sum_list (map asset_size todo)"

text \<open>
  The loop that submits the tasks. Its state is \<open>offset\<close> and \<open>cl_path\<close>; it yields
  the tasks in the order of submission and the last value of \<open>cl_path\<close>. The
  argument \<open>join\<close> is the operator \<open>/\<close> of \<open>pathlib\<close>.
\<close>

fun submit_all :: "(string \<Rightarrow> string \<Rightarrow> string) \<Rightarrow> string \<Rightarrow> asset list \<Rightarrow> nat
    \<Rightarrow> string option \<Rightarrow> task list \<times> string option" where
  "submit_all join target_dir [] offset cl_path = ([], cl_path)"
| "submit_all join target_dir (a # rest) offset cl_path =
     (let out = join target_dir (asset_name a);
          cl = (if lower (asset_name a) = ''changelog.json'' then Some out else cl_path)
      in case submit_all join target_dir rest (offset + asset_size a) cl of
           (ts, cl') \<Rightarrow> (\<lparr>t_asset = a, t_dest = out, t_offset = offset\<rparr> # ts, cl'))"

text \<open>
  The pool. Every submitted task runs to its end, also when another one has
  failed: leaving the \<open>with\<close> block waits for all of them. The tasks are run here
  one after the other in the order of submission, from position \<open>k\<close> on; for each
  the values it reported and the exception it ended with are kept. Tasks that
  write to different paths do not see each other, so for them this gives the
  files of every interleaving.
\<close>

fun run_tasks :: "(nat \<Rightarrow> download) \<Rightarrow> nat \<Rightarrow> task list \<Rightarrow> bool \<Rightarrow> nat \<Rightarrow> files
    \<Rightarrow> files \<times> (nat list \<times> error option) list" where
  "run_tasks nt k [] cb tot fs = (fs, [])"
| "run_tasks nt k (t # ts) cb tot fs =
     (case grab (nt k) t cb tot fs of
        (fs1, rs, e) \<Rightarrow>
          (case run_tasks nt (Suc k) ts cb tot fs1 of
             (fs2, outs) \<Rightarrow> (fs2, (rs, e) # outs)))"

text \<open>
  \<open>for f in as_completed(futures): f.result()\<close>: the exception of the first
  future, in the order given, that ended with one.
\<close>

fun first_error :: "nat list \<Rightarrow> error option list \<Rightarrow> error option" where
  "first_error [] outs = None"
| "first_error (i # rest) outs =
     (if i < length outs then
        (case outs ! i of Some e \<Rightarrow> Some e | None \<Rightarrow> first_error rest outs)
      else first_error rest outs)"

text \<open>
  What a call leaves behind: the files; the value of \<open>total\<close>; the tasks it
  submitted; for each task, in the order of submission, the values it passed to
  the callback and the exception it ended with; the values the last \<open>tick\<close>
  passed; and the value returned or the exception raised.
\<close>

record batch =
  files_after :: files
  total_bytes :: nat
  submitted :: "task list"
  reports :: "nat list list"
  raised :: "error option list"
  final_report :: "nat list"
  outcome :: "error + string option"

definition download_all_assets :: "(string \<Rightarrow> string \<Rightarrow> string) \<Rightarrow> world \<Rightarrow> asset list
    \<Rightarrow> string \<Rightarrow> bool \<Rightarrow> files \<Rightarrow> batch" where
  "download_all_assets join w assets target_dir on_progress fs =
     (if \<not> mkdir_ok w then
        \<lparr>files_after = fs, total_bytes = 0, submitted = [], reports = [], raised = [],
         final_report = [], outcome = Inl OSError\<rparr>
      else
        let todo = todo_of assets;
            tot = total_of todo
        in
        case submit_all join target_dir todo 0 None of
          (tasks, cl_path) \<Rightarrow>
            (case run_tasks (net w) 0 tasks on_progress tot fs of
               (fs', outs) \<Rightarrow>
                 (case first_error (completion w) (map snd outs) of
                    Some e \<Rightarrow>
                      \<lparr>files_after = fs', total_bytes = tot, submitted = tasks,
                       reports = map fst outs, raised = map snd outs,
                       final_report = [], outcome = Inl e\<rparr>
                  | None \<Rightarrow>
                      (case tick on_progress tot tot of
                         Inl e \<Rightarrow>
                           \<lparr>files_after = fs', total_bytes = tot, submitted = tasks,
                            reports = map fst outs, raised = map snd outs,
                            final_report = [], outcome = Inl e\<rparr>
                       | Inr vs \<Rightarrow>
                           \<lparr>files_after = fs', total_bytes = tot, submitted = tasks,
                            reports = map fst outs, raised = map snd outs,
                            final_report = vs, outcome = Inr cl_path\<rparr>))))"

subsection \<open>Notions used to state the properties\<close>

text \<open>Equality of two strings when case is ignored.\<close>

definition eq_nocase :: "string \<Rightarrow> string \<Rightarrow> bool" where
  "eq_nocase s t = (lower s = lower t)"

text \<open>
  The numbers of bytes that a task has written after each chunk it wrote,
  starting from \<open>n\<close> bytes: the chunks count up to the first item that fails.
\<close>

fun written_counts :: "item list \<Rightarrow> nat \<Rightarrow> nat list" where
  "written_counts [] n = []"
| "written_counts (Chunk c # rest) n =
     (if c = [] then written_counts rest n
      else (n + length c) # written_counts rest (n + length c))"
| "written_counts (WriteFails part # rest) n = []"
| "written_counts (Dropped # rest) n = []"

text \<open>
  The bytes that a body carries up to its first item that fails: the chunks
  before that item, and what a failing write still wrote.
\<close>

fun bytes_until_failure :: "item list \<Rightarrow> string" where
  "bytes_until_failure [] = []"
| "bytes_until_failure (Chunk c # rest) = c @ bytes_until_failure rest"
| "bytes_until_failure (WriteFails part # rest) = part"
| "bytes_until_failure (Dropped # rest) = []"

text \<open>A call of \<open>tick\<close> raises: the computation of the percentage fails.\<close>

definition tick_raises :: "bool \<Rightarrow> nat \<Rightarrow> nat \<Rightarrow> bool" where
  "tick_raises cb tot done_bytes =
     (case tick cb tot done_bytes of Inl e \<Rightarrow> True | Inr vs \<Rightarrow> False)"

text \<open>
  The partial file of a download whose file was opened and whose status was
  accepted. The bytes that arrived are those up to the first failing item of
  the body, or, when a \<open>tick\<close> raises before, the bytes written when it was
  called. Of these the file holds all but the bytes that a failing close lost.
\<close>

definition partial_file :: "bool \<Rightarrow> nat \<Rightarrow> nat \<Rightarrow> download \<Rightarrow> item list \<Rightarrow> string" where
  "partial_file cb tot offset d items =
     (let arrived =
        (case find (\<lambda>n. tick_raises cb tot (offset + n)) (written_counts items 0) of
           None \<Rightarrow> bytes_until_failure items
         | Some n \<Rightarrow> take n (bytes_until_failure items))
      in case close_lost d of
           None \<Rightarrow> arrived
         | Some lost \<Rightarrow> take (length arrived - lost) arrived)"

text \<open>
  A download that meets a failure of the transport, of the disk or of the
  status: no response, a file that does not open, a status that
  \<open>raise_for_status\<close> rejects, an item of the body that fails, or a close that
  fails to flush bytes of the body.
\<close>

definition meets_failure :: "download \<Rightarrow> bool" where
  "meets_failure d =
     (case get_result d of
        None \<Rightarrow> True
      | Some r \<Rightarrow>
          (if open_ok d then
             (400 \<le> status_code r \<and> status_code r < 600)
             \<or> list_ex (\<lambda>x. case x of Chunk c \<Rightarrow> False | _ \<Rightarrow> True) (stream r)
             \<or> (close_lost d \<noteq> None \<and> bytes_until_failure (stream r) \<noteq> [])
           else True))"

subsection \<open>Example worlds\<close>

text \<open>
  A join of paths with a slash; a download that is answered with the given
  status and body and whose file opens; one that is answered with status 200;
  a body of \<open>n\<close> bytes; and a list of two assets of four bytes each.
\<close>

definition posix_join :: "string \<Rightarrow> string \<Rightarrow> string" where
  "posix_join d n = d @ ''/'' @ n"

definition answers :: "nat \<Rightarrow> item list \<Rightarrow> download" where
  "answers code items =
     \<lparr>get_result = Some \<lparr>status_code = code, json_body = None, stream = items\<rparr>,
      open_ok = True, close_lost = None\<rparr>"

definition serves :: "item list \<Rightarrow> download" where
  "serves items = answers 200 items"

definition bytes :: "nat \<Rightarrow> string" where
  "bytes n = replicate n (CHR ''x'')"

definition two_assets :: "asset list" where
  "two_assets =
     [\<lparr>asset_name = ''a.bin'', asset_size = 4, browser_download_url = ''https://host/a.bin''\<rparr>,
      \<lparr>asset_name = ''b.bin'', asset_size = 4, browser_download_url = ''https://host/b.bin''\<rparr>]"


definition world_flush :: world where
  "world_flush =
     \<lparr>mkdir_ok = True,
      net = (\<lambda>k. if k = 0 then (serves [Chunk (bytes 4)])\<lparr>close_lost := Some 2\<rparr>
                  else serves [Chunk (bytes 4)]),
      completion = [1, 0]\<rparr>"

definition world_drop :: world where
  "world_drop =
     \<lparr>mkdir_ok = True,
      net = (\<lambda>k. if k = 0 then serves [Chunk (bytes 2), Dropped, Chunk (bytes 2)]
                  else serves [Chunk (bytes 4)]),
      completion = [1, 0]\<rparr>"

definition old_files :: files where
  "old_files = [''marlbot/a.bin'' \<mapsto> ''old'']"

section \<open>Properties of the version helpers\<close>

lemma is_digit_ascii: "is_ascii_digit c \<Longrightarrow> is_digit c"
  by (simp add: is_ascii_digit_def is_digit_def decimal_zeros_def)

lemma is_digit_not_dot: "is_digit c \<Longrightarrow> c \<noteq> dot"
  by (auto simp: is_digit_def decimal_zeros_def dot_def)

lemma is_digit_ex [simp]:
  "is_digit 1633" "is_digit 1634" "is_digit 1635" "is_digit 48" "is_digit 49" "is_digit 50"
  "\<not> is_digit 46" "\<not> is_digit 118"
  by (simp_all add: is_digit_def decimal_zeros_def)

lemma ustr_ex [simp]:
  "ustr ''v'' = [118]" "ustr ''1.0.0'' = [49, 46, 48, 46, 48]" "ustr ''.0.0'' = [46, 48, 46, 48]"
  "ustr ''v2.0.0'' = [118, 50, 46, 48, 46, 48]"
  by (simp_all add: ustr_def)

lemmas version_eval =
  compare_versions_def semver_extract_def match_here_def group1_def or_empty_def truthy_def
  py_or_def parse_def int_of_str_def max_str_digits_def is_ascii_digit_def digit_val_def
  version_gt_def cmpkey_def dot_def Let_def

lemma split_dots_digits_dot:
  "list_all is_digit a \<Longrightarrow> split_dots (a @ dot # rest) = a # split_dots rest"
  by (induction a) (auto dest: is_digit_not_dot)

lemma long_component:
  assumes "max_str_digits < n"
  shows "compare_versions (replicate n 49 @ ustr ''.0.0'') (ustr ''1.0.0'') None = Inl ValueError"
proof -
  let ?a = "replicate n 49"
  have n: "0 < n" using assms by simp
  have tw: "takeWhile is_digit (?a @ [46, 48, 46, 48]) = ?a"
    "dropWhile is_digit (?a @ [46, 48, 46, 48]) = [46, 48, 46, 48]"
    by (induction n) simp_all
  have m: "match_here (?a @ [46, 48, 46, 48]) = Some (?a, [48], [48])"
    using n by (simp add: match_here_def tw dot_def Let_def)
  have s: "search (?a @ [46, 48, 46, 48]) = Some (?a, [48], [48])"
    using n m by (cases n) simp_all
  have sp: "split_dots (?a @ dot # [48, 46, 48]) = ?a # split_dots [48, 46, 48]"
    by (rule split_dots_digits_dot) (simp add: list_all_iff)
  have p: "parse (?a @ [46, 48, 46, 48]) = Inl ValueError"
    using assms n sp by (simp add: parse_def int_of_str_def dot_def is_ascii_digit_def list_all_iff)
  show ?thesis
    using n by (simp add: compare_versions_def semver_extract_def s p group1_def or_empty_def
        truthy_def py_or_def match_here_def dot_def Let_def)
qed

text \<open>
  Claim C1 fails on the code: \<open>compare_versions\<close> does not always return a
  boolean. For the tag \<open>v\<close> followed by the Arabic-Indic digits one, two, three
  joined by dots (code points 1633 to 1635) the pattern finds the triple, and
  \<open>version.parse\<close> raises \<open>InvalidVersion\<close> on it; for a tag whose first number
  has 4301 digits \<open>int\<close> raises \<open>ValueError\<close>. (For the tag \<open>v2.0.0\<close> against
  \<open>1.0.0\<close> the decision is true.)
\<close>

theorem compare_versions_raises:
  "semver_extract (Some (ustr ''v'' @ [1633, 46, 1634, 46, 1635])) = Some [1633, 46, 1634, 46, 1635]
   \<and> compare_versions (ustr ''v'' @ [1633, 46, 1634, 46, 1635]) (ustr ''1.0.0'') None
       = Inl InvalidVersion
   \<and> compare_versions (replicate 4301 49 @ ustr ''.0.0'') (ustr ''1.0.0'') None = Inl ValueError
   \<and> compare_versions (ustr ''v2.0.0'') (ustr ''1.0.0'') None = Inr True"
proof (intro conjI)
  show "compare_versions (replicate 4301 49 @ ustr ''.0.0'') (ustr ''1.0.0'') None = Inl ValueError"
    by (rule long_component) (simp add: max_str_digits_def)
qed (simp_all add: version_eval)

section \<open>Properties of the double-precision arithmetic\<close>

lemma bitlen_0 [simp]: "bitlen 0 = 0"
  by (simp add: bitlen.simps)

lemma bitlen_pos: "0 < n \<Longrightarrow> bitlen n = Suc (bitlen (n div 2))"
  by (subst bitlen.simps) simp

lemma bitlen_less: "n < 2 ^ bitlen n"
proof (induction n rule: bitlen.induct)
  case (1 n)
  show ?case
  proof (cases "n = 0")
    case True
    then show ?thesis by simp
  next
    case False
    with 1 have "n div 2 < 2 ^ bitlen (n div 2)" by simp
    then have "n < 2 * 2 ^ bitlen (n div 2)" by linarith
    with False show ?thesis by (simp add: bitlen_pos)
  qed
qed

lemma bitlen_ge: "0 < n \<Longrightarrow> 2 ^ (bitlen n - 1) \<le> n"
proof (induction n rule: bitlen.induct)
  case (1 n)
  show ?case
  proof (cases "n div 2 = 0")
    case True
    with 1(2) have "n = 1" by linarith
    then show ?thesis by (simp add: bitlen_pos)
  next
    case False
    with 1 have ih: "2 ^ (bitlen (n div 2) - 1) \<le> n div 2" by simp
    from False have "0 < bitlen (n div 2)" by (simp add: bitlen_pos)
    then have "(2::nat) ^ bitlen (n div 2) = 2 * 2 ^ (bitlen (n div 2) - 1)"
      by (cases "bitlen (n div 2)") simp_all
    with ih have "2 ^ bitlen (n div 2) \<le> n" by linarith
    with 1(2) show ?thesis by (simp add: bitlen_pos)
  qed
qed

lemma bitlen_le_iff: "bitlen n \<le> k \<longleftrightarrow> n < 2 ^ k"
proof
  assume "bitlen n \<le> k"
  then have "(2::nat) ^ bitlen n \<le> 2 ^ k" by simp
  with bitlen_less[of n] show "n < 2 ^ k" by linarith
next
  assume lt: "n < 2 ^ k"
  show "bitlen n \<le> k"
  proof (rule ccontr)
    assume "\<not> bitlen n \<le> k"
    then have gt: "k \<le> bitlen n - 1" and pos: "0 < n"
      by (auto intro: gr0I)
    from gt have "(2::nat) ^ k \<le> 2 ^ (bitlen n - 1)" by simp
    with bitlen_ge[OF pos] lt show False by linarith
  qed
qed

lemma bitlen_mono: "m \<le> n \<Longrightarrow> bitlen m \<le> bitlen n"
  using bitlen_le_iff[of m "bitlen n"] bitlen_less[of n] by simp

lemma bitlen_power2: "bitlen (2 ^ n) = Suc n"
proof -
  have "bitlen (2 ^ n) \<le> Suc n" by (simp add: bitlen_le_iff)
  moreover have "\<not> bitlen (2 ^ n) \<le> n" by (simp add: bitlen_le_iff)
  ultimately show ?thesis by simp
qed

lemma rhe_lower: "N div D \<le> round_half_even N D"
  by (simp add: round_half_even_def Let_def)

lemma rhe_upper: "round_half_even N D \<le> Suc (N div D)"
  by (simp add: round_half_even_def Let_def)

lemma rhe_exact: "0 < D \<Longrightarrow> round_half_even (m * D) D = m"
  by (simp add: round_half_even_def Let_def)

lemma rhe_mono:
  assumes "N \<le> N'" "0 < D"
  shows "round_half_even N D \<le> round_half_even N' D"
proof (cases "N div D = N' div D")
  case False
  with assms have "N div D < N' div D"
    by (meson div_le_mono le_neq_implies_less)
  then have "Suc (N div D) \<le> N' div D" by simp
  with rhe_upper[of N D] rhe_lower[of N' D] show ?thesis by linarith
next
  case True
  have "N = D * (N div D) + N mod D" "N' = D * (N' div D) + N' mod D" by simp_all
  with True assms have "N mod D \<le> N' mod D"
    by (metis add_le_cancel_left)
  with True show ?thesis
    by (auto simp: round_half_even_def Let_def)
qed

lemma rhe_below:
  assumes "N < D * B"
  shows "round_half_even N D \<le> B"
proof -
  from assms have "0 < D" by (cases D) simp_all
  with assms have "N div D < B" by (simp add: less_mult_imp_div_less mult.commute)
  with rhe_upper[of N D] show ?thesis by linarith
qed

lemma fl_round_mono:
  assumes le: "N \<le> N'" and d: "0 < d"
  shows "fl_round N d \<le> fl_round N' d"
proof -
  define k where "k = bitlen (N div d) - 53"
  define k' where "k' = bitlen (N' div d) - 53"
  have fl: "fl_round N d = round_half_even N (d * 2 ^ k) * 2 ^ k"
    and fl': "fl_round N' d = round_half_even N' (d * 2 ^ k') * 2 ^ k'"
    by (simp_all add: fl_round_def k_def k'_def Let_def)
  have "N div d \<le> N' div d" using le by (rule div_le_mono)
  then have kk: "k \<le> k'"
    unfolding k_def k'_def using bitlen_mono diff_le_mono by blast
  show ?thesis
  proof (cases "k = k'")
    case True
    with le d show ?thesis by (simp add: fl fl' rhe_mono)
  next
    case False
    with kk have lt: "k < k'" by simp
    then have "bitlen (N' div d) = k' + 53" unfolding k'_def by linarith
    then have "\<not> bitlen (N' div d) \<le> k' + 52" by simp
    then have "2 ^ (k' + 52) \<le> N' div d" by (simp add: bitlen_le_iff)
    then have "d * 2 ^ (k' + 52) \<le> N'"
      using d by (simp add: less_eq_div_iff_mult_less_eq mult.commute)
    then have "2 ^ 52 * (d * 2 ^ k') \<le> N'" by (simp add: power_add mult_ac)
    then have "2 ^ 52 \<le> N' div (d * 2 ^ k')"
      using d by (simp add: less_eq_div_iff_mult_less_eq)
    with rhe_lower[of N' "d * 2 ^ k'"] have "2 ^ 52 \<le> round_half_even N' (d * 2 ^ k')"
      by linarith
    then have low: "2 ^ 52 * 2 ^ k' \<le> fl_round N' d" by (simp add: fl')
    have "bitlen (N div d) \<le> k + 53" unfolding k_def by linarith
    then have "N div d < 2 ^ (k + 53)" by (simp add: bitlen_le_iff)
    then have "N < d * 2 ^ (k + 53)"
      using d by (simp add: div_less_iff_less_mult mult.commute)
    then have "N < (d * 2 ^ k) * 2 ^ 53" by (simp add: power_add mult_ac)
    then have "round_half_even N (d * 2 ^ k) \<le> 2 ^ 53" by (rule rhe_below)
    then have up: "fl_round N d \<le> 2 ^ 53 * 2 ^ k" by (simp add: fl)
    from lt have "Suc k \<le> k'" by simp
    then have "(2::nat) ^ Suc k \<le> 2 ^ k'" by (rule power_increasing) simp
    then have "(2::nat) ^ 53 * 2 ^ k \<le> 2 ^ 52 * 2 ^ k'" by simp
    with up low show ?thesis by linarith
  qed
qed

lemma bitlen_double: "0 < n \<Longrightarrow> bitlen (2 * n) = Suc (bitlen n)"
  by (simp add: bitlen_pos)

lemma bitlen_shift: "0 < m \<Longrightarrow> bitlen (m * 2 ^ k) = bitlen m + k"
proof (induction k)
  case 0
  then show ?case by simp
next
  case (Suc k)
  have "m * 2 ^ Suc k = 2 * (m * 2 ^ k)" by simp
  moreover from Suc.prems have "0 < m * 2 ^ k" by simp
  ultimately have "bitlen (m * 2 ^ Suc k) = Suc (bitlen (m * 2 ^ k))"
    using bitlen_double by presburger
  with Suc show ?case by simp
qed

lemma fl_round_representable:
  assumes m: "m < 2 ^ 53" and d: "0 < d"
  shows "fl_round (m * 2 ^ k * d) d = m * 2 ^ k"
proof (cases "m = 0")
  case True
  then show ?thesis by (simp add: fl_round_def round_half_even_def)
next
  case False
  then have mpos: "0 < m" by simp
  define j where "j = bitlen (m * 2 ^ k) - 53"
  from m have "bitlen m \<le> 53" by (simp add: bitlen_le_iff)
  then have jk: "j \<le> k" unfolding j_def by (simp add: bitlen_shift[OF mpos])
  then have split: "(2::nat) ^ k = 2 ^ (k - j) * 2 ^ j"
    by (simp flip: power_add)
  have eq: "m * 2 ^ k * d = (m * 2 ^ (k - j)) * (d * 2 ^ j)"
    by (subst split) (simp add: mult_ac)
  have "round_half_even ((m * 2 ^ (k - j)) * (d * 2 ^ j)) (d * 2 ^ j) = m * 2 ^ (k - j)"
    using d by (intro rhe_exact) simp
  then have "round_half_even (m * 2 ^ k * d) (d * 2 ^ j) = m * 2 ^ (k - j)"
    by (simp only: eq)
  moreover have "fl_round (m * 2 ^ k * d) d = round_half_even (m * 2 ^ k * d) (d * 2 ^ j) * 2 ^ j"
    using d by (simp add: fl_round_def Let_def j_def)
  ultimately show ?thesis by (simp add: split mult_ac)
qed

lemma fl_round_one: "0 < d \<Longrightarrow> fl_round (d * 2 ^ k) d = 2 ^ k"
  using fl_round_representable[of 1 d k] by (simp add: mult.commute)

lemma hundred_below_limit: "100 * 2 ^ unit_bits < float_limit"
proof -
  have "(100::nat) < 2 ^ 1024" by simp
  then have "(100::nat) * 2 ^ unit_bits < 2 ^ 1024 * 2 ^ unit_bits"
    by (simp only: mult_less_cancel2 zero_less_power zero_less_numeral simp_thms)
  then show ?thesis by (simp only: float_limit_def power_add)
qed

lemma one_below_limit: "2 ^ unit_bits < float_limit"
  using hundred_below_limit by simp

lemma mul_one_hundred:
  "fl_round (2 ^ unit_bits * (100 * 2 ^ unit_bits)) (2 ^ unit_bits) = 100 * 2 ^ unit_bits"
proof -
  have "fl_round (100 * 2 ^ unit_bits * 2 ^ unit_bits) (2 ^ unit_bits) = 100 * 2 ^ unit_bits"
    by (rule fl_round_representable) simp_all
  then show ?thesis by (simp only: mult_ac)
qed

lemma percent_full: "0 < t \<Longrightarrow> percent t t = Inr 100"
  using hundred_below_limit one_below_limit
  by (simp add: percent_def int_truediv_def fl_round_one float_mul_def float_of_int_def
      int_of_float_def mul_one_hundred Let_def)

lemma rhe_cancel: "0 < c \<Longrightarrow> round_half_even (a * c) (b * c) = round_half_even a b"
  by (simp add: round_half_even_def Let_def mult.commute[of _ c] flip: mult.assoc)

lemma bitlen_eq: "2 ^ n \<le> q \<Longrightarrow> q < 2 ^ Suc n \<Longrightarrow> bitlen q = Suc n"
  using bitlen_le_iff[of q "Suc n"] bitlen_le_iff[of q n] by simp

lemma fl_round_normal:
  assumes d: "0 < d"
    and lo: "2 ^ 52 * (d * 2 ^ j) \<le> n"
    and hi: "n < 2 ^ 53 * (d * 2 ^ j)"
  shows "fl_round (n * 2 ^ k) d = round_half_even n (d * 2 ^ j) * 2 ^ (j + k)"
proof -
  from lo have "2 ^ 52 * (d * 2 ^ j) * 2 ^ k \<le> n * 2 ^ k" by simp
  then have "2 ^ (52 + j + k) * d \<le> n * 2 ^ k" by (simp add: power_add mult_ac)
  then have l: "2 ^ (52 + j + k) \<le> (n * 2 ^ k) div d"
    using d by (simp add: less_eq_div_iff_mult_less_eq)
  from hi have "n * 2 ^ k < 2 ^ 53 * (d * 2 ^ j) * 2 ^ k" by simp
  then have "n * 2 ^ k < 2 ^ Suc (52 + j + k) * d" by (simp add: power_add mult_ac)
  then have u: "(n * 2 ^ k) div d < 2 ^ Suc (52 + j + k)"
    using d by (simp add: div_less_iff_less_mult)
  have "bitlen ((n * 2 ^ k) div d) = Suc (52 + j + k)" using l u by (rule bitlen_eq)
  then have kc: "bitlen ((n * 2 ^ k) div d) - 53 = j + k" by simp
  have "round_half_even (n * 2 ^ k) (d * 2 ^ (j + k)) = round_half_even (n * 2 ^ k) ((d * 2 ^ j) * 2 ^ k)"
    by (simp add: power_add mult_ac)
  also have "\<dots> = round_half_even n (d * 2 ^ j)" by (rule rhe_cancel) simp
  finally show ?thesis by (simp add: fl_round_def Let_def kc)
qed

lemma fl_round_cancel:
  assumes "0 < c" "0 < d"
  shows "fl_round (a * c) (d * c) = fl_round a d"
proof -
  have "(a * c) div (d * c) = a div d" using assms by simp
  moreover have "\<And>k. round_half_even (a * c) (d * c * 2 ^ k) = round_half_even a (d * 2 ^ k)"
  proof -
    fix k
    have "round_half_even (a * c) ((d * 2 ^ k) * c) = round_half_even a (d * 2 ^ k)"
      using assms(1) by (rule rhe_cancel)
    then show "round_half_even (a * c) (d * c * 2 ^ k) = round_half_even a (d * 2 ^ k)"
      by (simp add: mult_ac)
  qed
  ultimately show ?thesis by (simp add: fl_round_def Let_def)
qed

text \<open>evaluation of percent in the normal range\<close>
lemma percent_normal:
  assumes t: "0 < t" and i: "i \<le> unit_bits" and j: "j \<le> 7"
    and lo: "2 ^ 52 * t \<le> d * 2 ^ i" and hi: "d * 2 ^ i < 2 ^ 53 * t"
    and q: "q = round_half_even (d * 2 ^ i) t"
    and lo': "2 ^ 52 * 2 ^ j \<le> q * 100" and hi': "q * 100 < 2 ^ 53 * 2 ^ j"
  shows "percent d t = Inr ((round_half_even (q * 100) (2 ^ j) * 2 ^ j) div 2 ^ i)"
proof -
  define U where "U = (2::nat) ^ unit_bits"
  define k where "k = unit_bits - i"
  define r where "r = round_half_even (q * 100) (2 ^ j)"
  have Usplit: "U = 2 ^ i * 2 ^ k" using i by (simp add: U_def k_def flip: power_add)
  have Upos: "0 < U" by (simp add: U_def)
  have "fl_round ((d * 2 ^ i) * 2 ^ k) t = round_half_even (d * 2 ^ i) (t * 2 ^ 0) * 2 ^ (0 + k)"
    using t lo hi by (intro fl_round_normal) simp_all
  then have Q: "fl_round (d * U) t = q * 2 ^ k" by (simp add: Usplit q mult_ac)
  have "q \<le> 2 ^ 53" unfolding q using hi by (intro rhe_below) (simp add: mult.commute)
  then have "q * 2 ^ k \<le> 2 ^ 53 * 2 ^ k" by simp
  also have "\<dots> \<le> 2 ^ 53 * U" by (simp add: Usplit)
  also have "\<dots> < float_limit"
    by (simp add: float_limit_def U_def power_add)
  finally have Qlim: "q * 2 ^ k < float_limit" .
  have "fl_round (((q * 100) * 2 ^ k) * U) (1 * U) = fl_round ((q * 100) * 2 ^ k) 1"
    using Upos by (intro fl_round_cancel) simp_all
  also have "\<dots> = round_half_even (q * 100) (1 * 2 ^ j) * 2 ^ (j + k)"
    using lo' hi' by (intro fl_round_normal) simp_all
  finally have R: "fl_round (q * 2 ^ k * (100 * U)) U = r * 2 ^ (j + k)"
    by (simp add: r_def mult_ac)
  have "r \<le> 2 ^ 53" unfolding r_def using hi' by (intro rhe_below) (simp add: mult.commute)
  then have "r * 2 ^ (j + k) \<le> 2 ^ 53 * 2 ^ (j + k)" by simp
  also have "\<dots> \<le> 2 ^ 53 * 2 ^ (7 + unit_bits)"
    using j by (intro mult_le_mono2 power_increasing) (simp_all add: k_def)
  also have "\<dots> < float_limit"
    by (simp add: float_limit_def power_add)
  finally have Rlim: "r * 2 ^ (j + k) < float_limit" .
  have "(r * 2 ^ (j + k)) div U = ((r * 2 ^ j) * 2 ^ k) div (2 ^ i * 2 ^ k)"
    by (simp add: Usplit power_add mult_ac)
  also have "\<dots> = (r * 2 ^ j) div 2 ^ i" by simp
  finally have D: "(r * 2 ^ (j + k)) div U = (r * 2 ^ j) div 2 ^ i" .
  have "percent d t = Inr ((r * 2 ^ (j + k)) div U)"
    using t Qlim Rlim
    by (simp add: percent_def int_truediv_def float_mul_def float_of_int_def int_of_float_def
        Let_def Q[unfolded U_def] R[unfolded U_def] U_def)
  also have "(r * 2 ^ (j + k)) div U = (r * 2 ^ j) div 2 ^ i" by (rule D)
  finally show ?thesis by (simp only: r_def)
qed

lemma percent_29: "percent 29 100 = Inr 28"
  by (rule percent_normal[where i = 54 and j = 6 and q = "round_half_even (29 * 2 ^ 54) 100", THEN trans])
    (simp_all add: unit_bits_def round_half_even_def)

lemma percent_mono:
  assumes le: "d1 \<le> d2" and t: "0 < t" and p2: "percent d2 t = Inr p2"
  shows "\<exists>p1. percent d1 t = Inr p1 \<and> p1 \<le> p2"
proof -
  define U where "U = (2::nat) ^ unit_bits"
  have Upos: "0 < U" by (simp add: U_def)
  define q1 where "q1 = fl_round (d1 * U) t"
  define q2 where "q2 = fl_round (d2 * U) t"
  define r1 where "r1 = fl_round (q1 * (100 * U)) U"
  define r2 where "r2 = fl_round (q2 * (100 * U)) U"
  have q: "q1 \<le> q2" unfolding q1_def q2_def using le t by (intro fl_round_mono) simp_all
  then have r: "r1 \<le> r2" unfolding r1_def r2_def using Upos by (intro fl_round_mono) simp_all
  from p2 t have lim2: "q2 < float_limit \<and> r2 < float_limit \<and> p2 = r2 div U"
    by (auto simp: percent_def int_truediv_def float_mul_def float_of_int_def int_of_float_def
        Let_def U_def q2_def r2_def split: if_splits)
  with q r have "q1 < float_limit" "r1 < float_limit" by simp_all
  with t have "percent d1 t = Inr (r1 div U)"
    by (simp add: percent_def int_truediv_def float_mul_def float_of_int_def int_of_float_def
        Let_def U_def q1_def r1_def)
  moreover from r lim2 have "r1 div U \<le> p2" by (simp add: div_le_mono)
  ultimately show ?thesis by blast
qed

lemma percent_in_range:
  assumes "d \<le> t" "0 < t"
  shows "\<exists>p. percent d t = Inr p \<and> p \<le> 100"
  using percent_mono[OF assms percent_full[OF assms(2)]] .


lemma percent_multiple:
  assumes t: "0 < t" and m: "m * 100 < 2 ^ 53"
  shows "percent (m * t) t = Inr (m * 100)"
proof -
  define U where "U = (2::nat) ^ unit_bits"
  have Upos: "0 < U" by (simp add: U_def)
  from m have m': "m < 2 ^ 53" by simp
  have Q: "fl_round (m * t * U) t = m * U"
    using fl_round_representable[OF m' t, of unit_bits] by (simp add: U_def mult_ac)
  have R: "fl_round (m * U * (100 * U)) U = m * 100 * U"
    using fl_round_representable[OF m Upos, of unit_bits] by (simp add: U_def mult_ac)
  have "m * 100 * U < 2 ^ 53 * U" using m Upos by simp
  also have "\<dots> < float_limit" by (simp add: float_limit_def U_def power_add)
  finally have Rlim: "m * 100 * U < float_limit" .
  then have Qlim: "m * U < float_limit" by simp
  show ?thesis
    using t Qlim Rlim Upos
    by (simp add: percent_def int_truediv_def float_mul_def float_of_int_def int_of_float_def
        Let_def Q[unfolded U_def] R[unfolded U_def] U_def)
qed

lemma percent_2_1: "percent 2 1 = Inr 200"
  using percent_multiple[of 1 2] by simp

section \<open>Properties of the tasks and of the pool\<close>

lemma percent_error: "percent d t = Inl e \<Longrightarrow> t \<noteq> 0 \<Longrightarrow> e = OverflowError"
  by (auto simp: percent_def int_truediv_def float_mul_def float_of_int_def int_of_float_def
      Let_def split: if_splits sum.splits pyfloat.splits)

lemma written_counts_gt: "c \<in> set (written_counts items n) \<Longrightarrow> n < c"
proof (induction items n arbitrary: c rule: written_counts.induct)
  case (2 d rest n)
  show ?case
  proof (cases "d = []")
    case True
    with "2.IH"(1) "2.prems" show ?thesis by simp
  next
    case False
    with "2.prems" have "c = n + length d \<or> c \<in> set (written_counts rest (n + length d))" by simp
    then show ?thesis
    proof
      assume "c = n + length d"
      with False show ?thesis by simp
    next
      assume "c \<in> set (written_counts rest (n + length d))"
      with "2.IH"(2)[OF False] have "n + length d < c" by simp
      then show ?thesis by simp
    qed
  qed
qed simp_all

lemma written_counts_sorted: "sorted (written_counts items n)"
proof (induction items n rule: written_counts.induct)
  case (2 d rest n)
  then show ?case by (auto dest!: written_counts_gt)
qed simp_all

lemma drain_silent:
  "\<not> (cb \<and> tot \<noteq> 0) \<Longrightarrow> fst (snd (drain cb tot off items wr n)) = []"
  by (induction cb tot off items wr n rule: drain.induct)
    (auto simp: tick_def split: prod.splits)

lemma drain_values:
  assumes "cb" "tot \<noteq> 0"
  shows "drain cb tot off items wr n = (w, rs, e) \<Longrightarrow>
    list_all2 (\<lambda>D v. percent (off + D) tot = Inr v)
      (take (length rs) (written_counts items n)) rs"
  using assms
proof (induction cb tot off items wr n arbitrary: w rs e rule: drain.induct)
  case (4 cb tot offset c rest written downloaded)
  show ?case
  proof (cases "c = []")
    case True
    with 4 show ?thesis by simp
  next
    case False
    show ?thesis
    proof (cases "percent (offset + (downloaded + length c)) tot")
      case (Inl err)
      with 4(3-5) False show ?thesis by (simp add: tick_def)
    next
      case (Inr p)
      then have tk: "tick cb tot (offset + (downloaded + length c)) = Inr [p]"
        using 4(4,5) by (simp add: tick_def)
      obtain w' rs' e' where d: "drain cb tot offset rest (written @ c) (downloaded + length c) = (w', rs', e')"
        by (cases "drain cb tot offset rest (written @ c) (downloaded + length c)")
      from 4(2)[OF False tk d 4(4,5)]
      have ih: "list_all2 (\<lambda>D v. percent (offset + D) tot = Inr v)
          (take (length rs') (written_counts rest (downloaded + length c))) rs'" .
      from 4(3) False tk d have "rs = p # rs'" by simp
      with ih Inr False show ?thesis by simp
    qed
  qed
qed simp_all

lemma drain_complete:
  assumes "cb" "tot \<noteq> 0"
  shows "drain cb tot off items wr n = (w, rs, e) \<Longrightarrow> e \<noteq> Some OverflowError \<Longrightarrow>
    length rs = length (written_counts items n)"
  using assms
proof (induction cb tot off items wr n arbitrary: w rs e rule: drain.induct)
  case (4 cb tot offset c rest written downloaded)
  show ?case
  proof (cases "c = []")
    case True
    with 4 show ?thesis by simp
  next
    case False
    show ?thesis
    proof (cases "percent (offset + (downloaded + length c)) tot")
      case (Inl err)
      with 4(5,6) have "err = OverflowError" by (auto dest: percent_error)
      with Inl 4(3-6) False show ?thesis by (simp add: tick_def)
    next
      case (Inr p)
      then have tk: "tick cb tot (offset + (downloaded + length c)) = Inr [p]"
        using 4(5,6) by (simp add: tick_def)
      obtain w' rs' e' where d: "drain cb tot offset rest (written @ c) (downloaded + length c) = (w', rs', e')"
        by (cases "drain cb tot offset rest (written @ c) (downloaded + length c)")
      from 4(3) False tk d have eq: "rs = p # rs'" "e = e'" by simp_all
      from 4(2)[OF False tk d _ 4(5,6)] 4(4) eq
      have "length rs' = length (written_counts rest (downloaded + length c))" by simp
      with eq False show ?thesis by simp
    qed
  qed
qed simp_all

lemma drain_sorted:
  assumes "drain cb tot off items wr n = (w, rs, e)"
  shows "sorted rs"
proof (cases "cb \<and> tot \<noteq> 0")
  case False
  with drain_silent[OF False, of off items wr n] assms show ?thesis by simp
next
  case True
  then have t: "0 < tot" by simp
  let ?cs = "take (length rs) (written_counts items n)"
  from True assms have la: "list_all2 (\<lambda>D v. percent (off + D) tot = Inr v) ?cs rs"
    by (intro drain_values) simp_all
  then have len: "length ?cs = length rs" by (rule list_all2_lengthD)
  have srt: "sorted ?cs" by (simp add: sorted_wrt_take written_counts_sorted)
  show ?thesis
    unfolding sorted_iff_nth_mono
  proof (intro allI impI)
    fix i j assume ij: "i \<le> j" and j: "j < length rs"
    from j len have pj: "percent (off + ?cs ! j) tot = Inr (rs ! j)"
      by (intro list_all2_nthD[OF la]) simp
    from ij j len have pi: "percent (off + ?cs ! i) tot = Inr (rs ! i)"
      by (intro list_all2_nthD[OF la]) simp
    from srt ij j len have "?cs ! i \<le> ?cs ! j" by (simp add: sorted_iff_nth_mono)
    then have "off + ?cs ! i \<le> off + ?cs ! j" by simp
    from percent_mono[OF this t pj] pi show "rs ! i \<le> rs ! j" by auto
  qed
qed

lemma grab_out_indep: "snd (grab d t cb tot fs) = snd (grab d t cb tot fs')"
  by (auto simp: grab_def split: option.splits sum.splits prod.splits)

lemma grab_files:
  "fst (grab d t cb tot fs) =
     (case fst (grab d t cb tot Map.empty) (t_dest t) of
        None \<Rightarrow> fs
      | Some c \<Rightarrow> fs(t_dest t \<mapsto> c))"
  by (auto simp: grab_def split: option.splits sum.splits prod.splits)

lemma grab_sorted: "sorted (fst (snd (grab d t cb tot fs)))"
  by (auto simp: grab_def split: option.splits sum.splits prod.splits dest: drain_sorted)

lemma submit_all_assets: "map t_asset (fst (submit_all join dir as off cl)) = as"
  by (induction as arbitrary: off cl) (simp_all add: Let_def split_beta)

lemma submit_all_length: "length (fst (submit_all join dir as off cl)) = length as"
  using submit_all_assets[of join dir as off cl] by (metis length_map)

lemma submit_all_dest:
  "map t_dest (fst (submit_all join dir as off cl)) = map (\<lambda>a. join dir (asset_name a)) as"
  by (induction as arbitrary: off cl) (simp_all add: Let_def split_beta)

lemma submit_all_offset:
  "i < length as \<Longrightarrow>
     t_offset (fst (submit_all join dir as off cl) ! i) = off + sum_list (map asset_size (take i as))"
proof (induction as arbitrary: off cl i)
  case Nil
  then show ?case by simp
next
  case (Cons a as)
  show ?case
  proof (cases i)
    case 0
    then show ?thesis by (simp add: Let_def split_beta)
  next
    case (Suc j)
    with Cons.prems have "j < length as" by simp
    from Cons.IH[OF this] Suc show ?thesis
      by (simp add: Let_def split_beta add.assoc)
  qed
qed


lemma run_tasks_length: "length (snd (run_tasks nt k ts cb tot fs)) = length ts"
  by (induction ts arbitrary: k fs) (simp_all add: split_beta)

lemma run_tasks_nth:
  "i < length ts \<Longrightarrow>
     snd (run_tasks nt k ts cb tot fs) ! i = snd (grab (nt (k + i)) (ts ! i) cb tot fs0)"
proof (induction ts arbitrary: k fs i)
  case Nil
  then show ?case by simp
next
  case (Cons t ts)
  show ?case
  proof (cases i)
    case 0
    then show ?thesis
      using grab_out_indep[of "nt k" t cb tot fs fs0] by (simp add: split_beta)
  next
    case (Suc j)
    with Cons.prems have "j < length ts" by simp
    from Cons.IH[OF this, of "Suc k"] Suc show ?thesis
      by (simp add: split_beta)
  qed
qed

lemma run_tasks_frame:
  "p \<notin> set (map t_dest ts) \<Longrightarrow> fst (run_tasks nt k ts cb tot fs) p = fs p"
proof (induction ts arbitrary: k fs)
  case Nil
  then show ?case by simp
next
  case (Cons t ts)
  from Cons.prems have p: "p \<noteq> t_dest t" "p \<notin> set (map t_dest ts)" by auto
  have "fst (grab (nt k) t cb tot fs) p = fs p"
    using p(1) by (subst grab_files) (simp split: option.splits)
  with Cons.IH[OF p(2), of "Suc k" "fst (grab (nt k) t cb tot fs)"] show ?case
    by (simp add: split_beta)
qed

lemma run_tasks_file:
  "distinct (map t_dest ts) \<Longrightarrow> i < length ts \<Longrightarrow>
     fst (run_tasks nt k ts cb tot fs) (t_dest (ts ! i)) =
       (case fst (grab (nt (k + i)) (ts ! i) cb tot Map.empty) (t_dest (ts ! i)) of
          None \<Rightarrow> fs (t_dest (ts ! i))
        | Some c \<Rightarrow> Some c)"
proof (induction ts arbitrary: k fs i)
  case Nil
  then show ?case by simp
next
  case (Cons t ts)
  obtain fs1 rs e where g: "grab (nt k) t cb tot fs = (fs1, rs, e)"
    by (cases "grab (nt k) t cb tot fs")
  obtain fs2 outs where r: "run_tasks nt (Suc k) ts cb tot fs1 = (fs2, outs)"
    by (cases "run_tasks nt (Suc k) ts cb tot fs1")
  have whole: "fst (run_tasks nt k (t # ts) cb tot fs) = fs2" using g r by simp
  show ?case
  proof (cases i)
    case 0
    from Cons.prems have "t_dest t \<notin> set (map t_dest ts)" by simp
    from run_tasks_frame[OF this, of nt "Suc k" cb tot fs1] r
    have "fs2 (t_dest t) = fs1 (t_dest t)" by simp
    moreover have "fs1 = fst (grab (nt k) t cb tot fs)" using g by simp
    ultimately show ?thesis
      unfolding whole using 0 by (subst (asm) grab_files) (simp split: option.splits)
  next
    case (Suc j)
    with Cons.prems have j: "j < length ts" and d: "distinct (map t_dest ts)"
      and nin: "t_dest t \<notin> t_dest ` set ts" by auto
    from j have "t_dest (ts ! j) \<in> t_dest ` set ts" by simp
    with nin have ne: "t_dest (ts ! j) \<noteq> t_dest t" by metis
    have "fs1 = fst (grab (nt k) t cb tot fs)" using g by simp
    then have "fs1 (t_dest (ts ! j)) = fs (t_dest (ts ! j))"
      using ne by (subst (asm) grab_files) (simp split: option.splits)
    with Cons.IH[OF d j, of "Suc k" fs1] r Suc show ?thesis
      unfolding whole by (simp split: option.splits)
  qed
qed

lemma first_error_None:
  "first_error order outs = None \<longleftrightarrow> (\<forall>k \<in> set order. k < length outs \<longrightarrow> outs ! k = None)"
  by (induction order) (auto split: option.splits)

lemma first_error_Some:
  "first_error order outs = Some e \<Longrightarrow>
     \<exists>pre j post. order = pre @ j # post \<and> j < length outs \<and> outs ! j = Some e \<and>
        (\<forall>k \<in> set pre. k < length outs \<longrightarrow> outs ! k = None)"
proof (induction order)
  case Nil
  then show ?case by simp
next
  case (Cons i rest)
  show ?case
  proof (cases "i < length outs \<and> outs ! i \<noteq> None")
    case True
    with Cons.prems have "outs ! i = Some e" by (auto split: option.splits)
    with True have "i # rest = [] @ i # rest \<and> i < length outs \<and> outs ! i = Some e \<and>
        (\<forall>k \<in> set []. k < length outs \<longrightarrow> outs ! k = None)" by simp
    then show ?thesis by blast
  next
    case False
    with Cons.prems have "first_error rest outs = Some e" by (auto split: option.splits if_splits)
    from Cons.IH[OF this] obtain pre j post where
      "rest = pre @ j # post" "j < length outs" "outs ! j = Some e"
      "\<forall>k \<in> set pre. k < length outs \<longrightarrow> outs ! k = None" by blast
    with False have "i # rest = (i # pre) @ j # post \<and> j < length outs \<and> outs ! j = Some e \<and>
        (\<forall>k \<in> set (i # pre). k < length outs \<longrightarrow> outs ! k = None)" by auto
    then show ?thesis by blast
  qed
qed

lemma tick_full: "tick cb tot tot = Inr (if cb \<and> tot \<noteq> 0 then [100] else [])"
  by (simp add: tick_def percent_full)

lemma batch_no_mkdir:
  "\<not> mkdir_ok w \<Longrightarrow> download_all_assets join w assets dir cb fs =
     \<lparr>files_after = fs, total_bytes = 0, submitted = [], reports = [], raised = [],
      final_report = [], outcome = Inl OSError\<rparr>"
  by (simp add: download_all_assets_def)

lemma batch_fields:
  assumes "mkdir_ok w"
  shows "files_after (download_all_assets join w assets dir cb fs) =
           fst (run_tasks (net w) 0 (fst (submit_all join dir (todo_of assets) 0 None)) cb
             (total_of (todo_of assets)) fs)"
    and "total_bytes (download_all_assets join w assets dir cb fs) = total_of (todo_of assets)"
    and "submitted (download_all_assets join w assets dir cb fs) =
           fst (submit_all join dir (todo_of assets) 0 None)"
    and "reports (download_all_assets join w assets dir cb fs) =
           map fst (snd (run_tasks (net w) 0 (fst (submit_all join dir (todo_of assets) 0 None)) cb
             (total_of (todo_of assets)) fs))"
    and "raised (download_all_assets join w assets dir cb fs) =
           map snd (snd (run_tasks (net w) 0 (fst (submit_all join dir (todo_of assets) 0 None)) cb
             (total_of (todo_of assets)) fs))"
  using assms
  by (simp_all add: download_all_assets_def Let_def split_beta tick_full
      split: option.splits)

lemma batch_outcome_raw:
  assumes "mkdir_ok w"
  shows "outcome (download_all_assets join w assets dir cb fs) =
           (case first_error (completion w)
                   (map snd (snd (run_tasks (net w) 0
                      (fst (submit_all join dir (todo_of assets) 0 None)) cb
                      (total_of (todo_of assets)) fs))) of
              Some e \<Rightarrow> Inl e
            | None \<Rightarrow> Inr (snd (submit_all join dir (todo_of assets) 0 None)))"
    and "final_report (download_all_assets join w assets dir cb fs) =
           (case first_error (completion w)
                   (map snd (snd (run_tasks (net w) 0
                      (fst (submit_all join dir (todo_of assets) 0 None)) cb
                      (total_of (todo_of assets)) fs))) of
              Some e \<Rightarrow> []
            | None \<Rightarrow> if cb \<and> total_of (todo_of assets) \<noteq> 0 then [100] else [])"
  using assms
  by (cases "first_error (completion w)
                   (map snd (snd (run_tasks (net w) 0
                      (fst (submit_all join dir (todo_of assets) 0 None)) cb
                      (total_of (todo_of assets)) fs)))";
      simp add: download_all_assets_def Let_def split_beta tick_full)+

lemma batch_outcome:
  assumes "mkdir_ok w"
  shows "outcome (download_all_assets join w assets dir cb fs) =
           (case first_error (completion w) (raised (download_all_assets join w assets dir cb fs)) of
              Some e \<Rightarrow> Inl e
            | None \<Rightarrow> Inr (snd (submit_all join dir (todo_of assets) 0 None)))"
    and "final_report (download_all_assets join w assets dir cb fs) =
           (case first_error (completion w) (raised (download_all_assets join w assets dir cb fs)) of
              Some e \<Rightarrow> []
            | None \<Rightarrow> if cb \<and> total_of (todo_of assets) \<noteq> 0 then [100] else [])"
  unfolding batch_fields(5)[OF assms] by (rule batch_outcome_raw[OF assms])+

lemma batch_lengths:
  assumes "mkdir_ok w"
  shows "length (submitted (download_all_assets join w assets dir cb fs)) = length (todo_of assets)"
    and "length (reports (download_all_assets join w assets dir cb fs)) = length (todo_of assets)"
    and "length (raised (download_all_assets join w assets dir cb fs)) = length (todo_of assets)"
  using assms by (simp_all add: batch_fields run_tasks_length submit_all_length)

lemma batch_task:
  assumes "mkdir_ok w" "i < length (todo_of assets)"
  shows "(reports (download_all_assets join w assets dir cb fs) ! i,
          raised (download_all_assets join w assets dir cb fs) ! i) =
         snd (grab (net w i) (submitted (download_all_assets join w assets dir cb fs) ! i) cb
              (total_of (todo_of assets)) fs0)"
proof -
  let ?ts = "fst (submit_all join dir (todo_of assets) 0 None)"
  have len: "i < length ?ts" using assms(2) by (simp add: submit_all_length)
  have "snd (run_tasks (net w) 0 ?ts cb (total_of (todo_of assets)) fs) ! i =
      snd (grab (net w (0 + i)) (?ts ! i) cb (total_of (todo_of assets)) fs0)"
    using len by (rule run_tasks_nth)
  then show ?thesis
    using assms len by (simp add: batch_fields run_tasks_length)
qed

section \<open>Properties of the release fetcher and of the download manager\<close>

text \<open>
  Claim C9. The values that one task passes to the callback never decrease:
  for every task of a batch the list of its reports is sorted. (Nothing is said
  about the order of reports of different tasks.)
\<close>

theorem reports_monotone_per_task:
  "list_all sorted (reports (download_all_assets join w assets dir cb fs))"
proof (cases "mkdir_ok w")
  case False
  then show ?thesis by (simp add: batch_no_mkdir)
next
  case True
  show ?thesis
    unfolding list_all_length
  proof (intro allI impI)
    fix i assume "i < length (reports (download_all_assets join w assets dir cb fs))"
    then have i: "i < length (todo_of assets)" using True by (simp add: batch_lengths)
    from batch_task[OF True i, of join dir cb fs fs]
    have "reports (download_all_assets join w assets dir cb fs) ! i =
        fst (snd (grab (net w i) (submitted (download_all_assets join w assets dir cb fs) ! i) cb
              (total_of (todo_of assets)) fs))"
      by (metis fst_conv)
    then show "sorted (reports (download_all_assets join w assets dir cb fs) ! i)"
      by (simp add: grab_sorted)
  qed
qed

lemma run_tasks_dom:
  "dom (fst (run_tasks nt k ts cb tot fs)) \<subseteq> dom fs \<union> set (map t_dest ts)"
proof
  fix p assume p: "p \<in> dom (fst (run_tasks nt k ts cb tot fs))"
  show "p \<in> dom fs \<union> set (map t_dest ts)"
  proof (cases "p \<in> set (map t_dest ts)")
    case True
    then show ?thesis by simp
  next
    case False
    from run_tasks_frame[OF False, of nt k cb tot fs] p show ?thesis by (auto simp: dom_def)
  qed
qed

lemma todo_of_idem: "todo_of (todo_of assets) = todo_of assets"
  by (simp add: todo_of_def)

text \<open>
  Claim C5. The tasks submitted are those of the assets whose name does not
  begin with \<open>Source code\<close>, in their order; \<open>total\<close> is the sum of the sizes
  of these assets, the others counting for nothing; no file is written but at
  the destination of such an asset; and the whole call is the same as the call
  on the list without the excluded assets.
\<close>

theorem source_archives_excluded:
  "map t_asset (submitted (download_all_assets join w assets dir cb fs)) =
     (if mkdir_ok w then filter (\<lambda>a. \<not> prefix ''Source code'' (asset_name a)) assets else [])
   \<and> total_bytes (download_all_assets join w assets dir cb fs) =
     (if mkdir_ok w
      then sum_list (map (\<lambda>a. if prefix ''Source code'' (asset_name a) then 0 else asset_size a) assets)
      else 0)
   \<and> dom (files_after (download_all_assets join w assets dir cb fs)) \<subseteq>
       dom fs \<union> (\<lambda>a. join dir (asset_name a)) `
         {a \<in> set assets. \<not> prefix ''Source code'' (asset_name a)}
   \<and> download_all_assets join w assets dir cb fs =
       download_all_assets join w
         (filter (\<lambda>a. \<not> prefix ''Source code'' (asset_name a)) assets) dir cb fs"
proof (cases "mkdir_ok w")
  case False
  then show ?thesis by (auto simp: batch_no_mkdir)
next
  case True
  have a: "map t_asset (submitted (download_all_assets join w assets dir cb fs)) =
      filter (\<lambda>a. \<not> prefix ''Source code'' (asset_name a)) assets"
    using True by (simp add: batch_fields submit_all_assets todo_of_def)
  have "sum_list (map asset_size (filter (\<lambda>a. \<not> prefix ''Source code'' (asset_name a)) assets)) =
      sum_list (map (\<lambda>a. if prefix ''Source code'' (asset_name a) then 0 else asset_size a) assets)"
    by (induction assets) simp_all
  then have b: "total_bytes (download_all_assets join w assets dir cb fs) =
      sum_list (map (\<lambda>a. if prefix ''Source code'' (asset_name a) then 0 else asset_size a) assets)"
    using True by (simp add: batch_fields total_of_def todo_of_def)
  have "dom (files_after (download_all_assets join w assets dir cb fs)) \<subseteq>
      dom fs \<union> set (map t_dest (fst (submit_all join dir (todo_of assets) 0 None)))"
    unfolding batch_fields(1)[OF True] by (rule run_tasks_dom)
  then have c: "dom (files_after (download_all_assets join w assets dir cb fs)) \<subseteq>
       dom fs \<union> (\<lambda>a. join dir (asset_name a)) `
         {a \<in> set assets. \<not> prefix ''Source code'' (asset_name a)}"
    by (simp add: submit_all_dest todo_of_def)
  have d: "download_all_assets join w assets dir cb fs =
       download_all_assets join w
         (filter (\<lambda>a. \<not> prefix ''Source code'' (asset_name a)) assets) dir cb fs"
    using todo_of_idem[of assets]
    by (simp add: download_all_assets_def todo_of_def[symmetric])
  from a b c d True show ?thesis by simp
qed





lemma length_bytes [simp]: "length (bytes n) = n"
  by (simp add: bytes_def)

lemma bytes_empty [simp]: "bytes n = [] \<longleftrightarrow> n = 0"
  by (simp add: bytes_def)

lemmas batch_eval =
  download_all_assets_def todo_of_def total_of_def grab_def close_file_def raise_for_status_def
  tick_def
  Let_def posix_join_def serves_def answers_def eq_nocase_def


lemma lower_ex2: "lower ''a.bin'' = ''a.bin''"
  by code_simp

lemma lower_ex3: "lower ''empty.txt'' = ''empty.txt''"
  by code_simp



text \<open>
  Claim C2 fails on the code when \<open>total\<close> is 0: for a batch of one asset of
  declared size 0 whose download succeeds, the call returns normally and the
  callback is never invoked, not even by the last \<open>tick\<close>.
\<close>

theorem no_final_report_when_total_zero:
  "let b = download_all_assets posix_join
       \<lparr>mkdir_ok = True, net = (\<lambda>k. serves []), completion = [0]\<rparr>
       [\<lparr>asset_name = ''empty.txt'', asset_size = 0, browser_download_url = ''u''\<rparr>]
       ''marlbot'' True Map.empty
   in raised b = [None] \<and> outcome b = Inr None \<and> reports b = [[]] \<and> final_report b = []"
  by (simp add: batch_eval lower_ex3 del: add_2_eq_Suc add_2_eq_Suc')

lemma percent_4_2: "percent 4 2 = Inr 200"
  using percent_multiple[of 2 2] by simp

text \<open>
  Claim C8 fails on the code when a body is longer than the declared size: for
  one asset of declared size 2 whose body has 4 bytes, the task passes 200 to
  the callback.
\<close>

theorem report_above_hundred:
  "let b = download_all_assets posix_join
       \<lparr>mkdir_ok = True, net = (\<lambda>k. serves [Chunk (bytes 4)]), completion = [0]\<rparr>
       [\<lparr>asset_name = ''a.bin'', asset_size = 2, browser_download_url = ''u''\<rparr>]
       ''marlbot'' True Map.empty
   in raised b = [None] \<and> outcome b = Inr None \<and> reports b = [[200]] \<and> final_report b = [100]"
  by (simp add: batch_eval percent_full percent_4_2 lower_ex2 del: add_2_eq_Suc add_2_eq_Suc')

lemma drain_fails:
  "list_ex (\<lambda>x. case x of Chunk c \<Rightarrow> False | _ \<Rightarrow> True) items \<Longrightarrow>
     snd (snd (drain cb tot off items wr n)) \<noteq> None"
  by (induction cb tot off items wr n rule: drain.induct)
    (auto simp: split_beta split: sum.splits)

lemma find_written_counts_gt:
  "find P (written_counts items n) = Some m \<Longrightarrow> n < m"
proof -
  assume "find P (written_counts items n) = Some m"
  then have "m \<in> set (written_counts items n)"
    by (auto simp: find_Some_iff)
  then show "n < m" by (rule written_counts_gt)
qed

lemma drain_arrived:
  "fst (drain cb tot off items wr n) =
     wr @ (case find (\<lambda>m. tick_raises cb tot (off + m)) (written_counts items n) of
             None \<Rightarrow> bytes_until_failure items
           | Some m \<Rightarrow> take (m - n) (bytes_until_failure items))"
proof (induction cb tot off items wr n rule: drain.induct)
  case (4 cb tot offset c rest written downloaded)
  show ?case
  proof (cases "c = []")
    case True
    with 4(1) show ?thesis by (simp cong: option.case_cong)
  next
    case False
    show ?thesis
    proof (cases "tick cb tot (offset + (downloaded + length c))")
      case (Inl err)
      with False show ?thesis by (simp add: tick_raises_def)
    next
      case (Inr vs)
      note ih = 4(2)[OF False Inr]
      show ?thesis
      proof (cases "find (\<lambda>m. tick_raises cb tot (offset + m))
          (written_counts rest (downloaded + length c))")
        case None
        with ih False Inr show ?thesis by (simp add: tick_raises_def split_beta)
      next
        case (Some m)
        from find_written_counts_gt[OF Some] have "downloaded + length c < m" .
        then have "take (m - downloaded) (c @ bytes_until_failure rest) =
            c @ take (m - (downloaded + length c)) (bytes_until_failure rest)"
          by simp
        with ih Some False Inr show ?thesis by (simp add: tick_raises_def split_beta)
      qed
    qed
  qed
qed simp_all

lemma drain_nonempty:
  "bytes_until_failure items \<noteq> [] \<Longrightarrow> fst (drain cb tot off items [] n) \<noteq> []"
proof (induction cb tot off items "[]::string" n rule: drain.induct)
  case (4 cb tot offset c rest downloaded)
  show ?case
  proof (cases "c = []")
    case True
    with 4 show ?thesis by simp
  next
    case False
    from False show ?thesis
      using drain_arrived[of cb tot offset rest c "downloaded + length c"]
      by (cases "tick cb tot (offset + (downloaded + length c))") (simp_all add: split_beta)
  qed
qed simp_all

lemma grab_fails: "meets_failure d \<Longrightarrow> snd (snd (grab d t cb tot fs)) \<noteq> None"
  by (auto simp: meets_failure_def grab_def close_file_def raise_for_status_def split_beta
      split: option.splits if_splits dest: drain_fails drain_nonempty)

lemma grab_content:
  "fst (grab d t cb tot Map.empty) (t_dest t) =
     (case get_result d of
        None \<Rightarrow> None
      | Some r \<Rightarrow>
          if \<not> open_ok d then None
          else if 400 \<le> status_code r \<and> status_code r < 600 then Some []
          else Some (partial_file cb tot (t_offset t) d (stream r)))"
  using drain_arrived[of cb tot "t_offset t" _ "[]" 0]
  by (simp add: grab_def close_file_def raise_for_status_def partial_file_def split_beta Let_def
      split: option.splits)

lemma grab_not_opened:
  "get_result d = None \<or> \<not> open_ok d \<Longrightarrow> fst (grab d t cb tot fs) = fs"
  by (auto simp: grab_def split: option.splits)



lemma batch_file:
  assumes mk: "mkdir_ok w" and i: "i < length (todo_of assets)"
    and dist: "distinct (map (\<lambda>a. join dir (asset_name a)) (todo_of assets))"
  shows "files_after (download_all_assets join w assets dir cb fs)
           (join dir (asset_name (todo_of assets ! i))) =
         (case fst (grab (net w i) (submitted (download_all_assets join w assets dir cb fs) ! i)
                 cb (total_of (todo_of assets)) Map.empty) (join dir (asset_name (todo_of assets ! i))) of
            None \<Rightarrow> fs (join dir (asset_name (todo_of assets ! i)))
          | Some c \<Rightarrow> Some c)"
proof -
  let ?ts = "fst (submit_all join dir (todo_of assets) 0 None)"
  have len: "i < length ?ts" using i by (simp add: submit_all_length)
  have d: "distinct (map t_dest ?ts)" using dist by (simp add: submit_all_dest)
  have "map t_dest ?ts ! i = map (\<lambda>a. join dir (asset_name a)) (todo_of assets) ! i"
    by (simp add: submit_all_dest)
  then have dest: "t_dest (?ts ! i) = join dir (asset_name (todo_of assets ! i))"
    using len i by simp
  from run_tasks_file[OF d len, of "net w" 0 cb "total_of (todo_of assets)" fs]
  show ?thesis using mk by (simp add: batch_fields dest cong: option.case_cong)
qed

lemma batch_dest:
  assumes "mkdir_ok w" "i < length (todo_of assets)"
  shows "t_dest (submitted (download_all_assets join w assets dir cb fs) ! i) =
         join dir (asset_name (todo_of assets ! i))"
proof -
  let ?ts = "fst (submit_all join dir (todo_of assets) 0 None)"
  have len: "i < length ?ts" using assms(2) by (simp add: submit_all_length)
  have "map t_dest ?ts ! i = map (\<lambda>a. join dir (asset_name a)) (todo_of assets) ! i"
    by (simp add: submit_all_dest)
  then show ?thesis using len assms by (simp add: batch_fields)
qed

lemma batch_offset:
  assumes "mkdir_ok w" "i < length (todo_of assets)"
  shows "t_offset (submitted (download_all_assets join w assets dir cb fs) ! i) =
         sum_list (map asset_size (take i (todo_of assets)))"
  using assms submit_all_offset[of i "todo_of assets" join dir 0 None]
  by (simp add: batch_fields)


text \<open>
  Claim C7. When the download of a filtered asset meets a failure of the
  transport, of the status or of the disk (and its future is handed over), its
  task ends with an exception and the batch raises instead of returning: the
  exception is the one of the first future, in the order in which they are
  handed over, that ended with an exception; the last \<open>tick\<close> is not made.
  Nothing is cleaned up, and a write starts from the empty file, it never
  appends or resumes: when the destinations of the filtered assets are
  distinct, the file of the failed asset is as before the call when it was not
  opened, is empty when the status was rejected, and else holds exactly the
  partial file of the download, whatever it held before the call.
\<close>

theorem failed_batch_raises:
  assumes mk: "mkdir_ok w" and i: "i < length (todo_of assets)"
    and ic: "i \<in> set (completion w)"
    and f: "meets_failure (net w i)"
  shows "(\<exists>e pre j post.
            outcome (download_all_assets join w assets dir cb fs) = Inl e
          \<and> completion w = pre @ j # post
          \<and> j < length (raised (download_all_assets join w assets dir cb fs))
          \<and> raised (download_all_assets join w assets dir cb fs) ! j = Some e
          \<and> (\<forall>k \<in> set pre.
                k < length (raised (download_all_assets join w assets dir cb fs)) \<longrightarrow>
                raised (download_all_assets join w assets dir cb fs) ! k = None))
    \<and> raised (download_all_assets join w assets dir cb fs) ! i \<noteq> None
    \<and> final_report (download_all_assets join w assets dir cb fs) = []
    \<and> (distinct (map (\<lambda>a. join dir (asset_name a)) (todo_of assets)) \<longrightarrow>
        files_after (download_all_assets join w assets dir cb fs)
          (join dir (asset_name (todo_of assets ! i))) =
        (case get_result (net w i) of
           None \<Rightarrow> fs (join dir (asset_name (todo_of assets ! i)))
         | Some r \<Rightarrow>
             if \<not> open_ok (net w i) then fs (join dir (asset_name (todo_of assets ! i)))
             else if 400 \<le> status_code r \<and> status_code r < 600 then Some []
             else Some (partial_file cb (total_of (todo_of assets))
                          (sum_list (map asset_size (take i (todo_of assets))))
                          (net w i) (stream r))))"
proof -
  let ?b = "download_all_assets join w assets dir cb fs"
  let ?t = "submitted ?b ! i"
  let ?p = "join dir (asset_name (todo_of assets ! i))"
  have dest: "t_dest ?t = ?p" using mk i by (rule batch_dest)
  have off: "t_offset ?t = sum_list (map asset_size (take i (todo_of assets)))"
    using mk i by (rule batch_offset)
  have len: "i < length (raised ?b)" using mk i by (simp add: batch_lengths)
  from batch_task[OF mk i, of join dir cb fs Map.empty]
  have "raised ?b ! i = snd (snd (grab (net w i) ?t cb (total_of (todo_of assets)) Map.empty))"
    by (metis snd_conv)
  with grab_fails[OF f] have ne: "raised ?b ! i \<noteq> None" by simp
  have "first_error (completion w) (raised ?b) \<noteq> None"
    using ic len ne by (auto simp: first_error_None)
  then obtain e where fe: "first_error (completion w) (raised ?b) = Some e" by auto
  from first_error_Some[OF fe] obtain pre j post where
    "completion w = pre @ j # post" "j < length (raised ?b)" "raised ?b ! j = Some e"
    "\<forall>k \<in> set pre. k < length (raised ?b) \<longrightarrow> raised ?b ! k = None" by blast
  moreover have "outcome ?b = Inl e" using fe by (simp add: batch_outcome(1)[OF mk])
  ultimately have part1: "\<exists>e pre j post. outcome ?b = Inl e
          \<and> completion w = pre @ j # post \<and> j < length (raised ?b) \<and> raised ?b ! j = Some e
          \<and> (\<forall>k \<in> set pre. k < length (raised ?b) \<longrightarrow> raised ?b ! k = None)"
    by (intro exI[of _ e] exI[of _ pre] exI[of _ j] exI[of _ post] conjI)
  have part2: "final_report ?b = []" using fe by (simp add: batch_outcome(2)[OF mk])
  have part3: "distinct (map (\<lambda>a. join dir (asset_name a)) (todo_of assets)) \<longrightarrow>
        files_after ?b ?p =
        (case get_result (net w i) of
           None \<Rightarrow> fs ?p
         | Some r \<Rightarrow>
             if \<not> open_ok (net w i) then fs ?p
             else if 400 \<le> status_code r \<and> status_code r < 600 then Some []
             else Some (partial_file cb (total_of (todo_of assets))
                          (sum_list (map asset_size (take i (todo_of assets))))
                          (net w i) (stream r)))"
  proof
    assume dist: "distinct (map (\<lambda>a. join dir (asset_name a)) (todo_of assets))"
    note bf = batch_file[where join = join and dir = dir and cb = cb and fs = fs, OF mk i dist]
    have gc: "fst (grab (net w i) ?t cb (total_of (todo_of assets)) Map.empty) ?p =
       (case get_result (net w i) of
          None \<Rightarrow> None
        | Some r \<Rightarrow>
            if \<not> open_ok (net w i) then None
            else if 400 \<le> status_code r \<and> status_code r < 600 then Some []
            else Some (partial_file cb (total_of (todo_of assets))
                         (sum_list (map asset_size (take i (todo_of assets))))
                         (net w i) (stream r)))"
      using grab_content[of "net w i" ?t cb "total_of (todo_of assets)"]
      unfolding dest off .
    show "files_after ?b ?p =
        (case get_result (net w i) of
           None \<Rightarrow> fs ?p
         | Some r \<Rightarrow>
             if \<not> open_ok (net w i) then fs ?p
             else if 400 \<le> status_code r \<and> status_code r < 600 then Some []
             else Some (partial_file cb (total_of (todo_of assets))
                          (sum_list (map asset_size (take i (todo_of assets))))
                          (net w i) (stream r)))"
      unfolding bf gc by (simp split: option.splits)
  qed
  show ?thesis by (intro conjI part1 ne part2 part3)
qed


lemma two_assets_todo: "todo_of two_assets = two_assets"
  by (simp add: todo_of_def two_assets_def)

lemma two_assets_dest:
  "posix_join ''marlbot'' (asset_name (todo_of two_assets ! 0)) = ''marlbot/a.bin''"
  by (simp add: two_assets_todo) (simp add: two_assets_def posix_join_def)

lemma two_assets_distinct:
  "distinct (map (\<lambda>a. posix_join ''marlbot'' (asset_name a)) (todo_of two_assets))"
  by (simp add: two_assets_todo) (simp add: two_assets_def posix_join_def)



lemma two_assets_total: "total_of (todo_of two_assets) = 8"
  by (simp add: two_assets_todo) (simp add: two_assets_def total_of_def)

lemma take_bytes: "take m (bytes n) = bytes (min m n)"
  by (simp add: bytes_def)

lemma partial_file_drop:
  "partial_file True 8 0 (net world_drop 0) [Chunk (bytes 2), Dropped, Chunk (bytes 2)] = bytes 2"
  by (simp add: partial_file_def world_drop_def serves_def answers_def)

lemma partial_file_flush:
  "partial_file True 8 0 (net world_flush 0) [Chunk (bytes 4)] = bytes 2"
  by (simp add: partial_file_def world_flush_def serves_def answers_def take_bytes)

theorem failed_batch_raises_witness:
  "(\<exists>e. outcome (download_all_assets posix_join world_drop two_assets ''marlbot'' True old_files)
        = Inl e)
   \<and> final_report (download_all_assets posix_join world_drop two_assets ''marlbot'' True old_files)
       = []
   \<and> files_after (download_all_assets posix_join world_drop two_assets ''marlbot'' True old_files)
        ''marlbot/a.bin'' = Some (bytes 2)
   \<and> raised (download_all_assets posix_join world_flush two_assets ''marlbot'' True old_files) ! 0
        \<noteq> None
   \<and> files_after (download_all_assets posix_join world_flush two_assets ''marlbot'' True old_files)
        ''marlbot/a.bin'' = Some (bytes 2)"
proof -
  have i: "0 < length (todo_of two_assets)" by (simp add: two_assets_todo) (simp add: two_assets_def)
  have mk: "mkdir_ok world_drop" by (simp add: world_drop_def)
  have ic: "0 \<in> set (completion world_drop)" by (simp add: world_drop_def)
  have f: "meets_failure (net world_drop 0)"
    by (simp add: world_drop_def serves_def answers_def meets_failure_def)
  have g: "get_result (net world_drop 0) =
      Some \<lparr>status_code = 200, json_body = None, stream = [Chunk (bytes 2), Dropped, Chunk (bytes 2)]\<rparr>"
    by (simp add: world_drop_def serves_def answers_def)
  have op: "open_ok (net world_drop 0)" by (simp add: world_drop_def serves_def answers_def)
  note th = failed_batch_raises[where join = posix_join and dir = "''marlbot''"
      and cb = True and fs = old_files, OF mk i ic f,
      unfolded two_assets_dest two_assets_total]
  from th have a: "\<exists>e. outcome
      (download_all_assets posix_join world_drop two_assets ''marlbot'' True old_files) = Inl e"
    by blast
  from th have b: "final_report
      (download_all_assets posix_join world_drop two_assets ''marlbot'' True old_files) = []"
    by blast
  from th two_assets_distinct have c: "files_after
      (download_all_assets posix_join world_drop two_assets ''marlbot'' True old_files)
      ''marlbot/a.bin'' = Some (bytes 2)"
    by (simp add: g op partial_file_drop)
  have mk': "mkdir_ok world_flush" by (simp add: world_flush_def)
  have ic': "0 \<in> set (completion world_flush)" by (simp add: world_flush_def)
  have g': "get_result (net world_flush 0) =
      Some \<lparr>status_code = 200, json_body = None, stream = [Chunk (bytes 4)]\<rparr>"
    by (simp add: world_flush_def serves_def answers_def)
  have op': "open_ok (net world_flush 0)" by (simp add: world_flush_def serves_def answers_def)
  have f': "meets_failure (net world_flush 0)"
    by (simp add: meets_failure_def g' op') (simp add: world_flush_def)
  note th' = failed_batch_raises[where join = posix_join and dir = "''marlbot''"
      and cb = True and fs = old_files, OF mk' i ic' f',
      unfolded two_assets_dest two_assets_total]
  from th' have d: "raised
      (download_all_assets posix_join world_flush two_assets ''marlbot'' True old_files) ! 0 \<noteq> None"
    by blast
  from th' two_assets_distinct have e: "files_after
      (download_all_assets posix_join world_flush two_assets ''marlbot'' True old_files)
      ''marlbot/a.bin'' = Some (bytes 2)"
    by (simp add: g' op' partial_file_flush)
  show ?thesis by (intro conjI a b c d e)
qed

end
